theory Spec2Isabelle
  imports Complex_Main "HOL-Library.Multiset"
begin

section \<open>The moving-agent epidemic simulation (simulation.py)\<close>

text \<open>
  A shallow embedding of the class \<open>MovingAgentSimulation\<close>. The numpy array
  \<open>self.map\<close> is a list of rows of real numbers (the array holds floats), cell
  \<open>map[x, y]\<close> being row \<open>x\<close>, column \<open>y\<close>. The four probabilities are reals. The
  random arrays the code obtains from \<open>np.random\<close> are inputs of the model: a function
  from the position in the generated array to the value drawn there.
\<close>

subsection \<open>State values and the grid\<close>

type_synonym grid = "real list list"

definition SUSCEPTIBLE :: real where "SUSCEPTIBLE = 1"
definition LATENT :: real where "LATENT = 2"
definition INFECTED :: real where "INFECTED = 3"
definition RECOVER :: real where "RECOVER = 4"

datatype error = ValueError

record sim =
  size_xy :: "nat \<times> nat"
  infect :: real
  symptom :: real
  recover :: real
  moving :: real
  map_arr :: grid
  n_step :: nat

text \<open>The random arrays consumed by one call of \<open>step\<close>, named as the locals that hold them.\<close>

record draws =
  recover_rate :: "nat \<Rightarrow> real"
  symptom_rate :: "nat \<Rightarrow> real"
  infect_rate :: "nat \<Rightarrow> real"
  rand_xs :: "nat \<Rightarrow> nat"
  rand_ys :: "nat \<Rightarrow> nat"
  rand_direction :: "nat \<Rightarrow> nat"

text \<open>Reading \<open>map[x, y]\<close> and the assignment \<open>map[x, y] = v\<close>.\<close>

fun cell :: "grid \<Rightarrow> nat \<times> nat \<Rightarrow> real" where
  "cell g (x, y) = g ! x ! y"

fun set_cell :: "grid \<Rightarrow> nat \<times> nat \<Rightarrow> real \<Rightarrow> grid" where
  "set_cell g (x, y) v = g[x := (g ! x)[y := v]]"

text \<open>A numpy array of shape \<open>(nx, ny)\<close>: \<open>nx\<close> rows of \<open>ny\<close> entries each.\<close>

definition has_shape :: "grid \<Rightarrow> nat \<times> nat \<Rightarrow> bool" where
  "has_shape g sz = (length g = fst sz \<and> list_all (\<lambda>row. length row = snd sz) g)"

definition in_grid :: "nat \<times> nat \<Rightarrow> nat \<times> nat \<Rightarrow> bool" where
  "in_grid sz xy = (fst xy < fst sz \<and> snd xy < snd sz)"

text \<open>The cells a grid has: the index pairs that \<open>map[x, y]\<close> accepts.\<close>

definition inside :: "grid \<Rightarrow> nat \<times> nat \<Rightarrow> bool" where
  "inside g xy = (fst xy < length g \<and> snd xy < length (g ! fst xy))"

definition wf_sim :: "sim \<Rightarrow> bool" where
  "wf_sim s = has_shape (map_arr s) (size_xy s)"

subsection \<open>Construction and seeding\<close>

text \<open>
  \<open>__init__\<close> stores its arguments unchecked and allocates \<open>np.ones(size) * SUSCEPTIBLE\<close>.
  The only failure is numpy's: \<open>np.ones\<close> raises \<open>ValueError\<close> on a negative dimension.
  A stored size is therefore never negative and is kept as naturals.
\<close>

definition init :: "int \<times> int \<Rightarrow> real \<Rightarrow> real \<Rightarrow> real \<Rightarrow> real \<Rightarrow> error + sim" where
  "init sz infect0 symptom0 recover0 moving0 =
     (if fst sz < 0 \<or> snd sz < 0 then Inl ValueError
      else Inr \<lparr> size_xy = (nat (fst sz), nat (snd sz)),
                 infect = infect0, symptom = symptom0, recover = recover0, moving = moving0,
                 map_arr = replicate (nat (fst sz)) (replicate (nat (snd sz)) (1 * SUSCEPTIBLE)),
                 n_step = 0 \<rparr>)"

text \<open>
  \<open>initialize\<close>: \<open>rand\<close> is the array \<open>np.random.rand(size[0], size[1])\<close>, and
  \<open>self.map[rand < ratio] = state\<close> overwrites the cells under the mask. The state
  value is an argument here (the source defaults it to \<open>LATENT\<close>).
\<close>

definition initialize :: "sim \<Rightarrow> real \<Rightarrow> real \<Rightarrow> (nat \<Rightarrow> nat \<Rightarrow> real) \<Rightarrow> sim" where
  "initialize s ratio state rand =
     s\<lparr> map_arr :=
          map (\<lambda>(x, row). map (\<lambda>(y, v). if rand x y < ratio then state else v) (enumerate 0 row))
              (enumerate 0 (map_arr s)) \<rparr>"

subsection \<open>The transition phases of step\<close>

text \<open>\<open>list(zip(*np.where(map == v)))\<close>: the matching cells in row-major order.\<close>

definition where_eq :: "grid \<Rightarrow> real \<Rightarrow> (nat \<times> nat) list" where
  "where_eq g v =
     concat (map (\<lambda>x. map (\<lambda>y. (x, y)) (filter (\<lambda>y. g ! x ! y = v) [0..<length (g ! x)]))
                 [0..<length g])"

text \<open>\<open>zip(cells, np.random.rand(len(cells)))\<close>: cell \<open>i\<close> of the list meets draw \<open>i\<close>.\<close>

definition with_draws :: "(nat \<times> nat) list \<Rightarrow> (nat \<Rightarrow> real) \<Rightarrow> ((nat \<times> nat) \<times> real) list" where
  "with_draws cells rate = zip cells (map rate [0..<length cells])"

text \<open>The body of the recovery loop (lines 54-56) and of the symptom loop (62-64).\<close>

fun recover_cell :: "real \<Rightarrow> grid \<Rightarrow> (nat \<times> nat) \<times> real \<Rightarrow> grid" where
  "recover_cell p g (xy, r) = (if r \<le> p then set_cell g xy RECOVER else g)"

fun symptom_cell :: "real \<Rightarrow> grid \<Rightarrow> (nat \<times> nat) \<times> real \<Rightarrow> grid" where
  "symptom_cell p g (xy, r) = (if r \<le> p then set_cell g xy INFECTED else g)"

text \<open>
  The neighbour test of lines 74-77, read from the grid as it is when the cell is visited.
  Coordinates are naturals, so \<open>x - 1\<close> already stops at 0 as \<open>max(x-1, 0)\<close> does.
\<close>

fun infected_neighbor :: "nat \<times> nat \<Rightarrow> grid \<Rightarrow> nat \<times> nat \<Rightarrow> bool" where
  "infected_neighbor (nx, ny) g (x, y) =
     (g ! max (x - 1) 0 ! y > SUSCEPTIBLE \<or>
      g ! min (x + 1) (nx - 1) ! y > SUSCEPTIBLE \<or>
      g ! x ! max (y - 1) 0 > SUSCEPTIBLE \<or>
      g ! x ! min (y + 1) (ny - 1) > SUSCEPTIBLE)"

fun infect_cell :: "real \<Rightarrow> nat \<times> nat \<Rightarrow> grid \<Rightarrow> (nat \<times> nat) \<times> real \<Rightarrow> grid" where
  "infect_cell p sz g (xy, r) =
     (if r \<le> p then (if infected_neighbor sz g xy then set_cell g xy LATENT else g) else g)"

definition infect_loop :: "real \<Rightarrow> nat \<times> nat \<Rightarrow> grid \<Rightarrow> ((nat \<times> nat) \<times> real) list \<Rightarrow> grid" where
  "infect_loop p sz g cs = foldl (infect_cell p sz) g cs"

definition step_recover :: "sim \<Rightarrow> draws \<Rightarrow> sim" where
  "step_recover s rnd =
     (let infects = where_eq (map_arr s) INFECTED
      in s\<lparr> map_arr := foldl (recover_cell (recover s)) (map_arr s)
                               (with_draws infects (recover_rate rnd)) \<rparr>)"

definition step_symptom :: "sim \<Rightarrow> draws \<Rightarrow> sim" where
  "step_symptom s rnd =
     (let latents = where_eq (map_arr s) LATENT
      in s\<lparr> map_arr := foldl (symptom_cell (symptom s)) (map_arr s)
                               (with_draws latents (symptom_rate rnd)) \<rparr>)"

definition step_infect :: "sim \<Rightarrow> draws \<Rightarrow> sim" where
  "step_infect s rnd =
     (let susceptibles = where_eq (map_arr s) SUSCEPTIBLE
      in s\<lparr> map_arr := infect_loop (infect s) (size_xy s) (map_arr s)
                               (with_draws susceptibles (infect_rate rnd)) \<rparr>)"

subsection \<open>The movement phase\<close>

text \<open>
  Python's \<open>int(...)\<close> of a float truncates towards zero. The product of line 92 is
  taken over the reals here, where the source multiplies floats.
\<close>

definition py_int :: "real \<Rightarrow> int" where
  "py_int r = (if 0 \<le> r then \<lfloor>r\<rfloor> else \<lceil>r\<rceil>)"

definition exchange_count :: "sim \<Rightarrow> int" where
  "exchange_count s = py_int (moving s * real (fst (size_xy s)) * real (snd (size_xy s)))"

text \<open>
  Lines 97-114: the cell \<open>(x2, y2)\<close> an attempt exchanges with; \<open>None\<close> is the
  \<open>continue\<close> of an attempt that would leave the grid. The source cell comes from
  \<open>randint(0, size)\<close>, so an attempt exists only on a grid with \<open>nx, ny \<ge> 1\<close>.
\<close>

fun move_target :: "nat \<times> nat \<Rightarrow> nat \<times> nat \<times> nat \<Rightarrow> (nat \<times> nat) option" where
  "move_target (nx, ny) (x, y, d) =
     (if d = 0 then (if x = 0 then None else Some (x - 1, y))
      else if d = 1 then (if x = nx - 1 then None else Some (x + 1, y))
      else if d = 2 then (if y = 0 then None else Some (x, y - 1))
      else (if y = ny - 1 then None else Some (x, y + 1)))"

text \<open>Lines 115-117: the exchange through \<open>temp\<close>.\<close>

definition swap_cells :: "grid \<Rightarrow> nat \<times> nat \<Rightarrow> nat \<times> nat \<Rightarrow> grid" where
  "swap_cells g xy xy2 =
     (let temp = cell g xy;
          g1 = set_cell g xy (cell g xy2)
      in set_cell g1 xy2 temp)"

fun exchange_attempt :: "nat \<times> nat \<Rightarrow> grid \<Rightarrow> nat \<times> nat \<times> nat \<Rightarrow> grid" where
  "exchange_attempt sz g (x, y, d) =
     (case move_target sz (x, y, d) of
        None \<Rightarrow> g
      | Some xy2 \<Rightarrow> swap_cells g (x, y) xy2)"

definition attempts :: "draws \<Rightarrow> nat \<Rightarrow> (nat \<times> nat \<times> nat) list" where
  "attempts rnd k = map (\<lambda>i. (rand_xs rnd i, rand_ys rnd i, rand_direction rnd i)) [0..<k]"

text \<open>
  \<open>exchange\<close>: \<open>np.random.randint(0, size, n)\<close> raises \<open>ValueError\<close> on a negative
  count \<open>n\<close>, before the grid is touched.
\<close>

definition exchange :: "sim \<Rightarrow> draws \<Rightarrow> error + sim" where
  "exchange s rnd =
     (let k = exchange_count s
      in if k < 0 then Inl ValueError
         else Inr (s\<lparr> map_arr := foldl (exchange_attempt (size_xy s)) (map_arr s)
                                        (attempts rnd (nat k)) \<rparr>))"

text \<open>
  The cells an attempt writes: its source and its target, or none when it is discarded;
  and the cells written by the attempts of one call of \<open>step\<close>, which runs \<open>exchange\<close>
  only when \<open>moving > 0\<close>.
\<close>

fun attempt_cells :: "nat \<times> nat \<Rightarrow> nat \<times> nat \<times> nat \<Rightarrow> (nat \<times> nat) list" where
  "attempt_cells sz (x, y, d) =
     (case move_target sz (x, y, d) of
        None \<Rightarrow> []
      | Some xy2 \<Rightarrow> [(x, y), xy2])"

definition exchanged_cells :: "sim \<Rightarrow> draws \<Rightarrow> (nat \<times> nat) list" where
  "exchanged_cells s rnd =
     (if moving s > 0
      then concat (map (attempt_cells (size_xy s)) (attempts rnd (nat (exchange_count s))))
      else [])"

text \<open>The multiset of the state values on the grid.\<close>

definition cell_states :: "grid \<Rightarrow> real multiset" where
  "cell_states g = mset (concat g)"

subsection \<open>step\<close>

text \<open>
  The phases in the order of the source, then the counter. The model returns the updated
  simulation; the pair the source returns is \<open>get_state\<close> of it.
\<close>

definition step :: "sim \<Rightarrow> draws \<Rightarrow> error + sim" where
  "step s rnd =
     (let s1 = step_recover s rnd;
          s2 = step_symptom s1 rnd;
          s3 = step_infect s2 rnd
      in case (if moving s3 > 0 then exchange s3 rnd else Inr s3) of
           Inl e \<Rightarrow> Inl e
         | Inr s4 \<Rightarrow> Inr (s4\<lparr> n_step := n_step s4 + 1 \<rparr>))"

definition get_state :: "sim \<Rightarrow> nat \<times> grid" where
  "get_state s = (n_step s, map_arr s)"

subsection \<open>Display mapping\<close>

type_synonym rgb = "int \<times> int \<times> int"

text \<open>\<open>rgb[data == v] = c\<close>: the cells of \<open>rgb\<close> under the mask take the colour \<open>c\<close>.\<close>

definition mask_assign :: "rgb list list \<Rightarrow> grid \<Rightarrow> real \<Rightarrow> rgb \<Rightarrow> rgb list list" where
  "mask_assign img data v c =
     map (\<lambda>(irow, drow). map (\<lambda>(px, d). if d = v then c else px) (zip irow drow)) (zip img data)"

definition convert_to_rgb :: "grid \<Rightarrow> rgb list list" where
  "convert_to_rgb data =
     (let rgb0 = map (\<lambda>row. map (\<lambda>_. (0, 0, 0)) row) data;
          rgb1 = mask_assign rgb0 data SUSCEPTIBLE (55, 55, 200);
          rgb2 = mask_assign rgb1 data LATENT (255, 255, 55);
          rgb3 = mask_assign rgb2 data INFECTED (200, 55, 55);
          rgb4 = mask_assign rgb3 data RECOVER (55, 200, 55)
      in rgb4)"

section \<open>Properties\<close>

lemmas state_defs = SUSCEPTIBLE_def LATENT_def INFECTED_def RECOVER_def

subsection \<open>Cells and assignments\<close>

lemma list_update_nth_cases:
  "xs[i := v] ! j = xs ! j \<or> (i = j \<and> xs[i := v] ! j = v)"
  by (cases "i < length xs") (auto simp: nth_list_update list_update_beyond)

lemma set_cell_cases:
  "cell (set_cell g p v) q = cell g q \<or> (p = q \<and> cell (set_cell g p v) q = v)"
proof (cases p, cases q)
  fix x y x' y' assume pq: "p = (x, y)" "q = (x', y')"
  let ?row = "(g ! x)[y := v]"
  from list_update_nth_cases [of g x ?row x']
  show ?thesis
  proof
    assume "g[x := ?row] ! x' = g ! x'"
    then show ?thesis using pq by simp
  next
    assume *: "x = x' \<and> g[x := ?row] ! x' = ?row"
    from list_update_nth_cases [of "g ! x" y v y'] * show ?thesis
      using pq by auto
  qed
qed

lemma lengths_set_cell: "map length (set_cell g p v) = map length g"
proof (cases p)
  case (Pair a b)
  have "length (g[a := (g ! a)[b := v]] ! i) = length (g ! i)" if "i < length g" for i
    using that by (cases "a = i") simp_all
  then show ?thesis using Pair by (auto intro!: nth_equalityI)
qed

lemma where_eq_iff:
  "(x, y) \<in> set (where_eq g v) \<longleftrightarrow> x < length g \<and> y < length (g ! x) \<and> g ! x ! y = v"
  by (auto simp: where_eq_def)

lemma with_draws_snd: "(q, r) \<in> set (with_draws cells rate) \<Longrightarrow> \<exists>i. r = rate i"
  by (auto simp: with_draws_def set_zip)

lemma with_draws_ex: "q \<in> set cells \<Longrightarrow> \<exists>i. (q, rate i) \<in> set (with_draws cells rate)"
  by (force simp: with_draws_def set_zip in_set_conv_nth)

lemma inside_lengths: "map length g' = map length g \<Longrightarrow> inside g' q = inside g q"
proof -
  assume eq: "map length g' = map length g"
  then have len: "length g' = length g" by (metis length_map)
  have "length (g' ! x) = length (g ! x)" if "x < length g" for x
    using that eq len by (metis nth_map)
  then show ?thesis using len by (auto simp: inside_def)
qed

lemma cell_set_cell_inside: "inside g q \<Longrightarrow> cell (set_cell g q v) q = v"
  by (cases q) (simp add: inside_def)

lemma where_eq_inside: "q \<in> set (where_eq g v) \<longleftrightarrow> inside g q \<and> cell g q = v"
  by (cases q) (simp add: where_eq_iff inside_def)

lemma foldl_cell_cases:
  assumes f: "\<And>g c. f g c = g \<or> (snd c \<le> p \<and> f g c = set_cell g (fst c) v)"
  shows "cell (foldl f g cs) q = cell g q \<or>
         (\<exists>r. (q, r) \<in> set cs \<and> r \<le> p \<and> cell (foldl f g cs) q = v)"
proof (induction cs arbitrary: g)
  case Nil
  then show ?case by simp
next
  case (Cons c cs)
  from Cons.IH [of "f g c"] show ?case
  proof
    assume rest: "cell (foldl f (f g c) cs) q = cell (f g c) q"
    from f [of g c] show ?thesis
    proof
      assume "f g c = g"
      with rest show ?thesis by simp
    next
      assume upd: "snd c \<le> p \<and> f g c = set_cell g (fst c) v"
      from set_cell_cases [of g "fst c" v q] show ?thesis
      proof
        assume "cell (set_cell g (fst c) v) q = cell g q"
        with rest upd show ?thesis by simp
      next
        assume "fst c = q \<and> cell (set_cell g (fst c) v) q = v"
        with rest upd have "(q, snd c) \<in> set (c # cs)" "snd c \<le> p"
          "cell (foldl f g (c # cs)) q = v" by auto
        then show ?thesis by blast
      qed
    qed
  next
    assume "\<exists>r. (q, r) \<in> set cs \<and> r \<le> p \<and> cell (foldl f (f g c) cs) q = v"
    then show ?thesis by auto
  qed
qed

lemma foldl_cell_set:
  assumes f: "\<And>g c. f g c = g \<or> (snd c \<le> p \<and> f g c = set_cell g (fst c) v)"
    and sets: "\<And>g r. I g \<Longrightarrow> r \<le> p \<Longrightarrow> f g (q, r) = set_cell g q v"
    and keep: "\<And>g c. I g \<Longrightarrow> I (f g c)"
    and start: "I g" "inside g q"
    and mem: "(q, r) \<in> set cs" "r \<le> p"
  shows "cell (foldl f g cs) q = v"
  using start mem
proof (induction cs arbitrary: g)
  case Nil
  then show ?case by simp
next
  case (Cons c cs)
  have len: "map length (f g c) = map length g"
    using f [of g c] by (auto simp: lengths_set_cell)
  show ?case
  proof (cases "(q, r) \<in> set cs")
    case True
    have "I (f g c)" using Cons.prems(1) by (rule keep)
    moreover have "inside (f g c) q"
      using Cons.prems(2) inside_lengths [OF len, of q] by simp
    ultimately show ?thesis using Cons.IH [of "f g c"] True Cons.prems(4) by simp
  next
    case False
    with Cons.prems(3) have c: "c = (q, r)" by simp
    then have "f g c = set_cell g q v"
      using sets Cons.prems(1,4) by simp
    then have now: "cell (f g c) q = v"
      using Cons.prems(2) by (simp add: cell_set_cell_inside)
    from foldl_cell_cases [of f p v "f g c" cs q, OF f] now show ?thesis
      by auto
  qed
qed

lemma recover_cell_step:
  "recover_cell p g c = g \<or> (snd c \<le> p \<and> recover_cell p g c = set_cell g (fst c) RECOVER)"
  by (cases c) simp

lemma symptom_cell_step:
  "symptom_cell p g c = g \<or> (snd c \<le> p \<and> symptom_cell p g c = set_cell g (fst c) INFECTED)"
  by (cases c) simp

lemma infect_cell_step:
  "infect_cell p sz g c = g \<or> (snd c \<le> p \<and> infect_cell p sz g c = set_cell g (fst c) LATENT)"
  by (cases c) simp

subsection \<open>The three transition phases\<close>

lemma with_draws_cell: "(q, r) \<in> set (with_draws cells rate) \<Longrightarrow> q \<in> set cells"
  by (auto simp: with_draws_def dest: set_zip_leftD)

lemma step_recover_cases:
  "cell (map_arr (step_recover s rnd)) q = cell (map_arr s) q \<or>
   (cell (map_arr s) q = INFECTED \<and> cell (map_arr (step_recover s rnd)) q = RECOVER)"
  using foldl_cell_cases [of "recover_cell (recover s)" "recover s" RECOVER "map_arr s"
      "with_draws (where_eq (map_arr s) INFECTED) (recover_rate rnd)" q, OF recover_cell_step]
  by (auto simp: step_recover_def Let_def where_eq_inside dest: with_draws_cell)

lemma step_symptom_cases:
  "cell (map_arr (step_symptom s rnd)) q = cell (map_arr s) q \<or>
   (cell (map_arr s) q = LATENT \<and> cell (map_arr (step_symptom s rnd)) q = INFECTED)"
  using foldl_cell_cases [of "symptom_cell (symptom s)" "symptom s" INFECTED "map_arr s"
      "with_draws (where_eq (map_arr s) LATENT) (symptom_rate rnd)" q, OF symptom_cell_step]
  by (auto simp: step_symptom_def Let_def where_eq_inside dest: with_draws_cell)

lemma step_infect_cases:
  "cell (map_arr (step_infect s rnd)) q = cell (map_arr s) q \<or>
   (cell (map_arr s) q = SUSCEPTIBLE \<and> cell (map_arr (step_infect s rnd)) q = LATENT)"
  using foldl_cell_cases [of "infect_cell (infect s) (size_xy s)" "infect s" LATENT "map_arr s"
      "with_draws (where_eq (map_arr s) SUSCEPTIBLE) (infect_rate rnd)" q, OF infect_cell_step]
  by (auto simp: step_infect_def infect_loop_def Let_def where_eq_inside dest: with_draws_cell)

lemma step_recover_mono: "cell (map_arr s) q \<le> cell (map_arr (step_recover s rnd)) q"
  using step_recover_cases [of s rnd q] by (auto simp: state_defs)

lemma step_symptom_mono: "cell (map_arr s) q \<le> cell (map_arr (step_symptom s rnd)) q"
  using step_symptom_cases [of s rnd q] by (auto simp: state_defs)

lemma step_infect_mono: "cell (map_arr s) q \<le> cell (map_arr (step_infect s rnd)) q"
  using step_infect_cases [of s rnd q] by (auto simp: state_defs)

lemma phases_moving:
  "moving (step_recover s rnd) = moving s"
  "moving (step_symptom s rnd) = moving s"
  "moving (step_infect s rnd) = moving s"
  by (simp_all add: step_recover_def step_symptom_def step_infect_def Let_def)

lemma phases_n_step:
  "n_step (step_recover s rnd) = n_step s"
  "n_step (step_symptom s rnd) = n_step s"
  "n_step (step_infect s rnd) = n_step s"
  by (simp_all add: step_recover_def step_symptom_def step_infect_def Let_def)

lemma step_without_moving:
  "moving s \<le> 0 \<Longrightarrow>
   step s rnd = Inr ((step_infect (step_symptom (step_recover s rnd) rnd) rnd)
                       \<lparr> n_step := n_step s + 1 \<rparr>)"
  by (simp add: step_def Let_def phases_moving phases_n_step)

lemma recover_cell_sets: "r \<le> p \<Longrightarrow> recover_cell p g (q, r) = set_cell g q RECOVER"
  by simp

lemma step_recover_sets:
  assumes draw: "\<forall>i. recover_rate rnd i \<le> recover s"
    and q: "inside (map_arr s) q" "cell (map_arr s) q = INFECTED"
  shows "cell (map_arr (step_recover s rnd)) q = RECOVER"
proof -
  let ?cs = "with_draws (where_eq (map_arr s) INFECTED) (recover_rate rnd)"
  from q have "q \<in> set (where_eq (map_arr s) INFECTED)"
    by (simp add: where_eq_inside)
  then obtain i where mem: "(q, recover_rate rnd i) \<in> set ?cs"
    using with_draws_ex by blast
  have le: "recover_rate rnd i \<le> recover s" using draw by simp
  have "cell (foldl (recover_cell (recover s)) (map_arr s) ?cs) q = RECOVER"
    by (rule foldl_cell_set [where I = "\<lambda>_. True" and p = "recover s", OF recover_cell_step _ _ _ q(1) mem le])
      (simp_all add: recover_cell_sets)
  then show ?thesis by (simp add: step_recover_def Let_def)
qed

text \<open>
  C7. With \<open>recover = 1\<close> and \<open>moving = 0\<close>, every cell that is Infected when \<open>step\<close>
  is called is Recovered when it returns, for every grid and for all recovery draws in
  \<open>[0, 1)\<close>; the symptom and infection draws are unconstrained.
\<close>

theorem step_recover_rate_one:
  assumes "recover s = 1" "moving s = 0"
    and draw: "\<forall>i. 0 \<le> recover_rate rnd i \<and> recover_rate rnd i < 1"
    and q: "inside (map_arr s) q" "cell (map_arr s) q = INFECTED"
  shows "\<exists>s'. step s rnd = Inr s' \<and> cell (map_arr s') q = RECOVER"
proof -
  let ?s1 = "step_recover s rnd"
  let ?s2 = "step_symptom ?s1 rnd"
  let ?s3 = "step_infect ?s2 rnd"
  have "\<forall>i. recover_rate rnd i \<le> recover s"
    using draw assms(1) by (simp add: less_imp_le)
  then have 1: "cell (map_arr ?s1) q = RECOVER"
    using q by (rule step_recover_sets)
  have 2: "cell (map_arr ?s2) q = RECOVER"
    using step_symptom_cases [of ?s1 rnd q] 1 by (auto simp: state_defs)
  have 3: "cell (map_arr ?s3) q = RECOVER"
    using step_infect_cases [of ?s2 rnd q] 2 by (auto simp: state_defs)
  have "step s rnd = Inr (?s3\<lparr> n_step := n_step s + 1 \<rparr>)"
    using assms(2) by (simp add: step_without_moving)
  with 3 show ?thesis by simp
qed

theorem step_recover_rate_one_witness:
  "\<exists>s'. step \<lparr> size_xy = (2, 2), infect = 1/2, symptom = 1/2, recover = 1, moving = 0,
                 map_arr = [[INFECTED, SUSCEPTIBLE], [LATENT, INFECTED]], n_step = 0 \<rparr>
               \<lparr> recover_rate = (\<lambda>_. 9/10), symptom_rate = (\<lambda>_. 1/4), infect_rate = (\<lambda>_. 1/4),
                 rand_xs = (\<lambda>_. 0), rand_ys = (\<lambda>_. 0), rand_direction = (\<lambda>_. 0) \<rparr> = Inr s' \<and>
        cell (map_arr s') (1, 1) = RECOVER"
  by (rule step_recover_rate_one) (simp_all add: inside_def)

subsection \<open>Draws matter only through the threshold tests\<close>

lemma with_draws_snoc:
  "with_draws (cs @ [c]) rate = with_draws cs rate @ [(c, rate (length cs))]"
  by (simp add: with_draws_def)

lemma foldl_draws_cong:
  assumes f: "\<And>g q r r'. (r \<le> p) = (r' \<le> p) \<Longrightarrow> f g (q, r) = f g (q, r')"
    and same: "\<forall>i. (rate i \<le> p) = (rate' i \<le> p)"
  shows "foldl f g (with_draws cells rate) = foldl f g (with_draws cells rate')"
proof (induction cells rule: rev_induct)
  case Nil
  then show ?case by (simp add: with_draws_def)
next
  case (snoc c cs)
  have "f (foldl f g (with_draws cs rate')) (c, rate (length cs)) =
        f (foldl f g (with_draws cs rate')) (c, rate' (length cs))"
    using same by (intro f) simp
  with snoc show ?case by (simp add: with_draws_snoc)
qed

lemma step_recover_cong:
  "\<forall>i. (recover_rate rnd i \<le> recover s) = (recover_rate rnd' i \<le> recover s) \<Longrightarrow>
   step_recover s rnd = step_recover s rnd'"
  unfolding step_recover_def Let_def
  using foldl_draws_cong [of "recover s" "recover_cell (recover s)" "recover_rate rnd" "recover_rate rnd'"]
  by simp

lemma step_infect_cong:
  "\<forall>i. (infect_rate rnd i \<le> infect s) = (infect_rate rnd' i \<le> infect s) \<Longrightarrow>
   step_infect s rnd = step_infect s rnd'"
  unfolding step_infect_def infect_loop_def Let_def
  using foldl_draws_cong [of "infect s" "infect_cell (infect s) (size_xy s)" "infect_rate rnd" "infect_rate rnd'"]
  by simp

subsection \<open>The 3x3 scenario\<close>

text \<open>
  The scenario of C1 run with every draw equal to \<open>1/2\<close>. The infection loop visits the
  Susceptible cells in row-major order and tests the neighbours on the grid it is updating:
  \<open>(0, 1)\<close> has just become Latent when \<open>(0, 2)\<close> is visited, and so on. Three of the
  four corners end Latent; only \<open>(0, 0)\<close>, visited first, stays Susceptible.
\<close>

theorem step_scenario_3x3_counterexample:
  "step \<lparr> size_xy = (3, 3), infect = 1, symptom = 0, recover = 0, moving = 0,
           map_arr = [[SUSCEPTIBLE, SUSCEPTIBLE, SUSCEPTIBLE],
                      [SUSCEPTIBLE, INFECTED, SUSCEPTIBLE],
                      [SUSCEPTIBLE, SUSCEPTIBLE, SUSCEPTIBLE]], n_step = 0 \<rparr>
        \<lparr> recover_rate = (\<lambda>_. 1/2), symptom_rate = (\<lambda>_. 1/2), infect_rate = (\<lambda>_. 1/2),
          rand_xs = (\<lambda>_. 0), rand_ys = (\<lambda>_. 0), rand_direction = (\<lambda>_. 0) \<rparr>
   = Inr \<lparr> size_xy = (3, 3), infect = 1, symptom = 0, recover = 0, moving = 0,
           map_arr = [[SUSCEPTIBLE, LATENT, LATENT],
                      [LATENT, INFECTED, LATENT],
                      [LATENT, LATENT, LATENT]], n_step = 1 \<rparr>"
  by code_simp

text \<open>
  C1, as the code has it. On the 3x3 grid that is Susceptible except for the Infected
  centre, with \<open>infect = 1\<close>, \<open>symptom = 0\<close>, \<open>recover = 0\<close>, \<open>moving = 0\<close>, one call of
  \<open>step\<close> leaves the four axis-adjacent neighbours of the centre Latent, the centre
  Infected, the corner \<open>(0, 0)\<close> Susceptible and the other three corners Latent, for all
  infection draws in \<open>[0, 1)\<close> and all recovery draws in \<open>(0, 1)\<close>. (A recovery draw of
  exactly 0 passes the test \<open>r \<le> 0\<close>; that case is left out here.)
\<close>

theorem step_scenario_3x3:
  assumes "\<forall>i. 0 < recover_rate rnd i \<and> recover_rate rnd i < 1"
    and "\<forall>i. 0 \<le> infect_rate rnd i \<and> infect_rate rnd i < 1"
  shows
  "step \<lparr> size_xy = (3, 3), infect = 1, symptom = 0, recover = 0, moving = 0,
           map_arr = [[SUSCEPTIBLE, SUSCEPTIBLE, SUSCEPTIBLE],
                      [SUSCEPTIBLE, INFECTED, SUSCEPTIBLE],
                      [SUSCEPTIBLE, SUSCEPTIBLE, SUSCEPTIBLE]], n_step = 0 \<rparr> rnd
   = Inr \<lparr> size_xy = (3, 3), infect = 1, symptom = 0, recover = 0, moving = 0,
           map_arr = [[SUSCEPTIBLE, LATENT, LATENT],
                      [LATENT, INFECTED, LATENT],
                      [LATENT, LATENT, LATENT]], n_step = 1 \<rparr>"
proof -
  let ?g = "[[SUSCEPTIBLE, SUSCEPTIBLE, SUSCEPTIBLE],
             [SUSCEPTIBLE, INFECTED, SUSCEPTIBLE],
             [SUSCEPTIBLE, SUSCEPTIBLE, SUSCEPTIBLE]]"
  let ?S = "\<lparr> size_xy = (3, 3), infect = 1, symptom = 0, recover = 0, moving = 0,
              map_arr = ?g, n_step = 0 \<rparr>"
  let ?R = "\<lparr> recover_rate = (\<lambda>_. 1), symptom_rate = (\<lambda>_. 1), infect_rate = (\<lambda>_. 1),
              rand_xs = (\<lambda>_. 0), rand_ys = (\<lambda>_. 0), rand_direction = (\<lambda>_. 0) \<rparr>"
  have "step_recover ?S rnd = step_recover ?S ?R"
    using assms(1) by (intro step_recover_cong) (simp add: not_le)
  also have "step_recover ?S ?R = ?S"
    by code_simp
  finally have rec: "step_recover ?S rnd = ?S" .
  have "where_eq ?g LATENT = []"
    by code_simp
  then have sym: "step_symptom ?S rnd = ?S"
    by (simp add: step_symptom_def with_draws_def)
  have "step_infect ?S rnd = step_infect ?S ?R"
    using assms(2) by (intro step_infect_cong) (simp add: less_imp_le)
  also have "step_infect ?S ?R =
      \<lparr> size_xy = (3, 3), infect = 1, symptom = 0, recover = 0, moving = 0,
        map_arr = [[SUSCEPTIBLE, LATENT, LATENT],
                   [LATENT, INFECTED, LATENT],
                   [LATENT, LATENT, LATENT]], n_step = 0 \<rparr>"
    by code_simp
  finally have inf: "step_infect ?S rnd =
      \<lparr> size_xy = (3, 3), infect = 1, symptom = 0, recover = 0, moving = 0,
        map_arr = [[SUSCEPTIBLE, LATENT, LATENT],
                   [LATENT, INFECTED, LATENT],
                   [LATENT, LATENT, LATENT]], n_step = 0 \<rparr>" .
  have "moving ?S \<le> 0" by simp
  then show ?thesis
    by (simp only: step_without_moving rec sym inf) simp
qed

theorem step_scenario_3x3_witness:
  "step \<lparr> size_xy = (3, 3), infect = 1, symptom = 0, recover = 0, moving = 0,
           map_arr = [[SUSCEPTIBLE, SUSCEPTIBLE, SUSCEPTIBLE],
                      [SUSCEPTIBLE, INFECTED, SUSCEPTIBLE],
                      [SUSCEPTIBLE, SUSCEPTIBLE, SUSCEPTIBLE]], n_step = 0 \<rparr>
        \<lparr> recover_rate = (\<lambda>_. 1/4), symptom_rate = (\<lambda>_. 0), infect_rate = (\<lambda>i. 1 / (2 + real i)),
          rand_xs = (\<lambda>_. 0), rand_ys = (\<lambda>_. 0), rand_direction = (\<lambda>_. 0) \<rparr>
   = Inr \<lparr> size_xy = (3, 3), infect = 1, symptom = 0, recover = 0, moving = 0,
           map_arr = [[SUSCEPTIBLE, LATENT, LATENT],
                      [LATENT, INFECTED, LATENT],
                      [LATENT, LATENT, LATENT]], n_step = 1 \<rparr>"
  by (rule step_scenario_3x3) (simp_all add: field_simps)

subsection \<open>Visiting order in the infection phase\<close>

lemma infected_neighbor_mono:
  assumes "\<And>q'. SUSCEPTIBLE < cell g q' \<Longrightarrow> SUSCEPTIBLE < cell g' q'"
    and "infected_neighbor sz g q"
  shows "infected_neighbor sz g' q"
proof (cases sz, cases q)
  fix nx ny x y assume sz: "sz = (nx, ny)" and q: "q = (x, y)"
  note up = assms(1) [of "(a, b)" for a b, simplified]
  from assms(2) show ?thesis
    unfolding sz q infected_neighbor.simps by (elim disjE) (simp_all add: up)
qed

lemma infect_cell_keeps_neighbor:
  assumes "infected_neighbor sz g q"
  shows "infected_neighbor sz (infect_cell p sz g c) q"
proof (rule infected_neighbor_mono [OF _ assms])
  fix q' assume "SUSCEPTIBLE < cell g q'"
  then show "SUSCEPTIBLE < cell (infect_cell p sz g c) q'"
    using infect_cell_step [of p sz g c] set_cell_cases [of g "fst c" LATENT q']
    by (auto simp: state_defs)
qed

lemma infect_cell_sets:
  "infected_neighbor sz g q \<Longrightarrow> r \<le> p \<Longrightarrow> infect_cell p sz g (q, r) = set_cell g q LATENT"
  by simp

lemma infect_loop_latent:
  assumes "infected_neighbor sz g q" "inside g q" "(q, r) \<in> set cs" "r \<le> p"
  shows "cell (infect_loop p sz g cs) q = LATENT"
  unfolding infect_loop_def
  by (rule foldl_cell_set [where I = "\<lambda>g. infected_neighbor sz g q" and p = p,
        OF infect_cell_step infect_cell_sets infect_cell_keeps_neighbor assms])

lemma infect_loop_cell:
  assumes cells: "\<forall>c \<in> set cs. inside g (fst c)"
    and stable: "\<forall>r. (q, r) \<in> set cs \<and> r \<le> p \<longrightarrow> infected_neighbor sz g q"
  shows "cell (infect_loop p sz g cs) q =
         (if \<exists>r. (q, r) \<in> set cs \<and> r \<le> p then LATENT else cell g q)"
proof (cases "\<exists>r. (q, r) \<in> set cs \<and> r \<le> p")
  case True
  then obtain r where r: "(q, r) \<in> set cs" "r \<le> p" by blast
  with stable have "infected_neighbor sz g q" by blast
  moreover from cells r(1) have "inside g q" by force
  ultimately have "cell (infect_loop p sz g cs) q = LATENT"
    using r by (rule infect_loop_latent)
  with True show ?thesis by simp
next
  case False
  with foldl_cell_cases [of "infect_cell p sz" p LATENT g cs q, OF infect_cell_step]
  show ?thesis by (auto simp: infect_loop_def)
qed

text \<open>
  C2, as the code has it. Let \<open>cs\<close> and \<open>cs'\<close> be two orders of the same list of
  Susceptible cells, each cell with its own draw. The two runs of the infection loop agree
  on every cell \<open>q\<close> except one whose draw passes (\<open>r \<le> p\<close>) while none of its neighbours
  is above Susceptible on the grid at the start of the phase: only such a cell can be
  reached through a cell infected earlier in the same loop.
\<close>

theorem infect_loop_order:
  assumes "mset cs = mset (with_draws (where_eq g SUSCEPTIBLE) rate)"
    and "mset cs' = mset (with_draws (where_eq g SUSCEPTIBLE) rate)"
    and "\<forall>r. (q, r) \<in> set cs \<and> r \<le> p \<longrightarrow> infected_neighbor sz g q"
  shows "cell (infect_loop p sz g cs) q = cell (infect_loop p sz g cs') q"
proof -
  let ?ws = "with_draws (where_eq g SUSCEPTIBLE) rate"
  have sets: "set cs = set ?ws" "set cs' = set ?ws"
    using assms(1,2) by (auto dest: mset_eq_setD)
  have "\<forall>c \<in> set ?ws. inside g (fst c)"
    using with_draws_cell [of _ _ "where_eq g SUSCEPTIBLE" rate]
    by (auto simp: where_eq_inside)
  then have cells: "\<forall>c \<in> set cs. inside g (fst c)" "\<forall>c \<in> set cs'. inside g (fst c)"
    using sets by simp_all
  have stable': "\<forall>r. (q, r) \<in> set cs' \<and> r \<le> p \<longrightarrow> infected_neighbor sz g q"
    using assms(3) sets by simp
  show ?thesis
    using infect_loop_cell [OF cells(1) assms(3)] infect_loop_cell [OF cells(2) stable'] sets
    by simp
qed

theorem infect_loop_order_witness:
  "cell (infect_loop 1 (1, 3) [[INFECTED, SUSCEPTIBLE, SUSCEPTIBLE]]
           [((0, 1), 1/2), ((0, 2), 1/2)]) (0, 1) =
   cell (infect_loop 1 (1, 3) [[INFECTED, SUSCEPTIBLE, SUSCEPTIBLE]]
           [((0, 2), 1/2), ((0, 1), 1/2)]) (0, 1)"
proof (rule infect_loop_order [where rate = "\<lambda>_. 1/2"])
  have ws: "with_draws (where_eq [[INFECTED, SUSCEPTIBLE, SUSCEPTIBLE]] SUSCEPTIBLE) (\<lambda>_. 1/2)
            = [((0, 1), 1/2), ((0, 2), 1/2)]"
    by code_simp
  show "mset [((0, 1), 1/2), ((0, 2), 1/2)] =
        mset (with_draws (where_eq [[INFECTED, SUSCEPTIBLE, SUSCEPTIBLE]] SUSCEPTIBLE) (\<lambda>_. 1/2 :: real))"
    by (simp only: ws)
  show "mset [((0, 2), 1/2), ((0, 1), 1/2)] =
        mset (with_draws (where_eq [[INFECTED, SUSCEPTIBLE, SUSCEPTIBLE]] SUSCEPTIBLE) (\<lambda>_. 1/2 :: real))"
    by (simp only: ws) simp
  show "\<forall>r. ((0, 1), r) \<in> set [((0, 1), 1/2), ((0, 2), 1/2)] \<and> r \<le> 1 \<longrightarrow>
          infected_neighbor (1, 3) [[INFECTED, SUSCEPTIBLE, SUSCEPTIBLE]] (0, 1)"
    by (simp add: state_defs)
qed

text \<open>
  On the row \<open>[INFECTED, SUSCEPTIBLE, SUSCEPTIBLE]\<close> with \<open>infect = 1\<close> the order of \<open>step\<close> itself, \<open>(0, 1)\<close> then
  \<open>(0, 2)\<close>, infects both cells, because \<open>(0, 2)\<close> sees the Latent \<open>(0, 1)\<close>; the
  opposite order leaves \<open>(0, 2)\<close> Susceptible. The neighbour test reads the grid as
  updated so far, not the grid at the start of the phase.
\<close>

theorem infect_loop_order_counterexample:
  "with_draws (where_eq [[INFECTED, SUSCEPTIBLE, SUSCEPTIBLE]] SUSCEPTIBLE) (\<lambda>_. 1/2)
     = [((0, 1), 1/2), ((0, 2), 1/2)] \<and>
   infect_loop 1 (1, 3) [[INFECTED, SUSCEPTIBLE, SUSCEPTIBLE]] [((0, 1), 1/2), ((0, 2), 1/2)]
     = [[INFECTED, LATENT, LATENT]] \<and>
   infect_loop 1 (1, 3) [[INFECTED, SUSCEPTIBLE, SUSCEPTIBLE]] [((0, 2), 1/2), ((0, 1), 1/2)]
     = [[INFECTED, LATENT, SUSCEPTIBLE]]"
  by code_simp

subsection \<open>Movement\<close>

lemma foldl_unchanged: "(\<And>a. a \<in> set as \<Longrightarrow> f g a = g) \<Longrightarrow> foldl f g as = g"
  by (induction as) simp_all

lemma py_int_nonneg: "0 \<le> r \<Longrightarrow> 0 \<le> py_int r"
  by (simp add: py_int_def)

lemma exchange_count_neg: "exchange_count s < 0 \<Longrightarrow> moving s < 0"
proof (rule ccontr)
  assume neg: "exchange_count s < 0" and "\<not> moving s < 0"
  then have "0 \<le> moving s * real (fst (size_xy s)) * real (snd (size_xy s))" by simp
  then have "0 \<le> exchange_count s" unfolding exchange_count_def by (rule py_int_nonneg)
  with neg show False by simp
qed

text \<open>
  C8. On a 1x1 grid with \<open>moving > 0\<close>, every attempt (source cell \<open>(0, 0)\<close>, any
  direction) has no target, and \<open>exchange\<close> returns with the simulation unchanged.
\<close>

theorem exchange_1x1:
  assumes sz: "size_xy s = (1, 1)" and mv: "0 < moving s"
    and rnd: "\<forall>i. rand_xs rnd i < 1 \<and> rand_ys rnd i < 1"
  shows "(\<forall>i. move_target (size_xy s) (rand_xs rnd i, rand_ys rnd i, rand_direction rnd i) = None)
         \<and> exchange s rnd = Inr s"
proof
  show discarded:
    "\<forall>i. move_target (size_xy s) (rand_xs rnd i, rand_ys rnd i, rand_direction rnd i) = None"
    using rnd by (simp add: sz)
  have "0 \<le> exchange_count s"
  proof (rule ccontr)
    assume "\<not> 0 \<le> exchange_count s"
    then have "moving s < 0" by (intro exchange_count_neg) simp
    with mv show False by simp
  qed
  moreover have "foldl (exchange_attempt (size_xy s)) (map_arr s) (attempts rnd k) = map_arr s" for k
    by (rule foldl_unchanged) (auto simp: attempts_def discarded [rule_format])
  ultimately show "exchange s rnd = Inr s"
    by (simp add: exchange_def Let_def)
qed

theorem exchange_1x1_witness:
  "exchange \<lparr> size_xy = (1, 1), infect = 1/2, symptom = 1/2, recover = 1/2, moving = 7/2,
              map_arr = [[INFECTED]], n_step = 0 \<rparr>
            \<lparr> recover_rate = (\<lambda>_. 0), symptom_rate = (\<lambda>_. 0), infect_rate = (\<lambda>_. 0),
              rand_xs = (\<lambda>_. 0), rand_ys = (\<lambda>_. 0), rand_direction = (\<lambda>i. i mod 4) \<rparr>
   = Inr \<lparr> size_xy = (1, 1), infect = 1/2, symptom = 1/2, recover = 1/2, moving = 7/2,
              map_arr = [[INFECTED]], n_step = 0 \<rparr>"
  by (rule exchange_1x1 [THEN conjunct2]) simp_all

lemma mset_set_cell:
  "inside g p \<Longrightarrow>
   add_mset (cell g p) (mset (concat (set_cell g p v))) = add_mset v (mset (concat g))"
proof (cases p)
  case (Pair x y)
  assume "inside g p"
  with Pair have "x < length g" "y < length (g ! x)" by (simp_all add: inside_def)
  then have "add_mset (g ! x ! y) (mset (concat (g[x := (g ! x)[y := v]])))
             = add_mset v (mset (concat g))"
  proof (induction g arbitrary: x)
    case Nil
    then show ?case by simp
  next
    case (Cons row g)
    show ?case
    proof (cases x)
      case 0
      with Cons.prems have "y < length row" by simp
      then have "add_mset (row ! y) (mset (row[y := v])) = add_mset v (mset row)"
        by (simp add: mset_update)
      then show ?thesis using 0 by simp
    next
      case (Suc x')
      with Cons.prems Cons.IH [of x'] show ?thesis by simp
    qed
  qed
  with Pair show ?thesis by simp
qed

lemma swap_cells_lengths: "map length (swap_cells g p q) = map length g"
  by (simp add: swap_cells_def Let_def lengths_set_cell)

lemma swap_cells_states:
  assumes "inside g p" "inside g q"
  shows "cell_states (swap_cells g p q) = cell_states g"
proof -
  let ?g1 = "set_cell g p (cell g q)"
  have q1: "inside ?g1 q"
    using assms(2) inside_lengths [OF lengths_set_cell, of g p "cell g q" q] by simp
  have at_q: "cell ?g1 q = cell g q"
    using set_cell_cases [of g p "cell g q" q] by auto
  have "add_mset (cell g p) (mset (concat ?g1)) = add_mset (cell g q) (mset (concat g))"
    using assms(1) by (rule mset_set_cell)
  moreover have "add_mset (cell ?g1 q) (mset (concat (set_cell ?g1 q (cell g p))))
                 = add_mset (cell g p) (mset (concat ?g1))"
    using q1 by (rule mset_set_cell)
  ultimately have "add_mset (cell g q) (mset (concat (set_cell ?g1 q (cell g p))))
                   = add_mset (cell g q) (mset (concat g))"
    using at_q by simp
  then show ?thesis by (simp add: cell_states_def swap_cells_def Let_def)
qed

lemma has_shape_alt:
  "has_shape g sz \<longleftrightarrow>
     length (map length g) = fst sz \<and> (\<forall>k \<in> set (map length g). k = snd sz)"
  by (auto simp: has_shape_def list_all_iff)

lemma has_shape_lengths: "map length g' = map length g \<Longrightarrow> has_shape g' sz = has_shape g sz"
  by (simp only: has_shape_alt)

lemma has_shape_inside: "has_shape g sz \<Longrightarrow> in_grid sz q \<Longrightarrow> inside g q"
  by (auto simp: has_shape_def in_grid_def inside_def list_all_length)

lemma move_target_in_grid:
  "in_grid sz (x, y) \<Longrightarrow> move_target sz (x, y, d) = Some q \<Longrightarrow> in_grid sz q"
  by (cases sz) (auto simp: in_grid_def split: if_splits)

lemma exchange_attempt_keeps:
  assumes "has_shape g sz" "in_grid sz (x, y)"
  shows "has_shape (exchange_attempt sz g (x, y, d)) sz \<and>
         cell_states (exchange_attempt sz g (x, y, d)) = cell_states g"
proof (cases "move_target sz (x, y, d)")
  case None
  then show ?thesis using assms(1) by simp
next
  case (Some q)
  with assms(2) have "in_grid sz q" by (simp add: move_target_in_grid)
  with assms have "inside g (x, y)" "inside g q" by (simp_all add: has_shape_inside)
  then have "cell_states (swap_cells g (x, y) q) = cell_states g" by (rule swap_cells_states)
  moreover have "has_shape (swap_cells g (x, y) q) sz"
    using assms(1) has_shape_lengths [OF swap_cells_lengths, of g "(x, y)" q sz] by simp
  ultimately show ?thesis using Some by simp
qed

lemma exchange_loop_keeps:
  assumes "has_shape g sz" "\<forall>a \<in> set as. in_grid sz (fst a, fst (snd a))"
  shows "has_shape (foldl (exchange_attempt sz) g as) sz \<and>
         cell_states (foldl (exchange_attempt sz) g as) = cell_states g"
  using assms
proof (induction as arbitrary: g)
  case Nil
  then show ?case by simp
next
  case (Cons a as)
  obtain x y d where a: "a = (x, y, d)" by (cases a)
  with Cons.prems have "in_grid sz (x, y)" by simp
  with Cons.prems(1) have
    "has_shape (exchange_attempt sz g a) sz \<and> cell_states (exchange_attempt sz g a) = cell_states g"
    unfolding a by (rule exchange_attempt_keeps)
  with Cons.IH [of "exchange_attempt sz g a"] Cons.prems(2) show ?case by simp
qed

text \<open>
  C9. On a grid of the stored shape, with every drawn source cell inside the grid (as
  \<open>randint(0, size)\<close> draws them), \<open>exchange\<close> returns a simulation of the same shape
  whose multiset of cell values is the one before the call. The only other outcome is the
  \<open>ValueError\<close> of a negative attempt count, which needs \<open>moving < 0\<close> and is raised before
  the grid is touched.
\<close>

theorem exchange_preserves_states:
  assumes "wf_sim s"
    and "\<forall>i. int i < exchange_count s \<longrightarrow> in_grid (size_xy s) (rand_xs rnd i, rand_ys rnd i)"
  shows "(\<exists>s'. exchange s rnd = Inr s' \<and> wf_sim s' \<and>
               cell_states (map_arr s') = cell_states (map_arr s)) \<or>
         (exchange s rnd = Inl ValueError \<and> moving s < 0)"
proof (cases "exchange_count s < 0")
  case True
  then show ?thesis by (simp add: exchange_def Let_def exchange_count_neg)
next
  case False
  let ?g = "foldl (exchange_attempt (size_xy s)) (map_arr s) (attempts rnd (nat (exchange_count s)))"
  have "\<forall>a \<in> set (attempts rnd (nat (exchange_count s))). in_grid (size_xy s) (fst a, fst (snd a))"
    using assms(2) by (auto simp: attempts_def)
  with assms(1) have "has_shape ?g (size_xy s) \<and> cell_states ?g = cell_states (map_arr s)"
    unfolding wf_sim_def by (rule exchange_loop_keeps)
  with False show ?thesis by (simp add: exchange_def Let_def wf_sim_def)
qed

theorem exchange_preserves_states_witness:
  "\<exists>s'. exchange \<lparr> size_xy = (1, 2), infect = 0, symptom = 0, recover = 0, moving = 1/2,
                    map_arr = [[RECOVER, SUSCEPTIBLE]], n_step = 0 \<rparr>
                  \<lparr> recover_rate = (\<lambda>_. 0), symptom_rate = (\<lambda>_. 0), infect_rate = (\<lambda>_. 0),
                    rand_xs = (\<lambda>_. 0), rand_ys = (\<lambda>_. 0), rand_direction = (\<lambda>_. 3) \<rparr> = Inr s' \<and>
        wf_sim s' \<and> cell_states (map_arr s') = cell_states [[RECOVER, SUSCEPTIBLE]]"
  using exchange_preserves_states [of
      "\<lparr> size_xy = (1, 2), infect = 0, symptom = 0, recover = 0, moving = 1/2,
         map_arr = [[RECOVER, SUSCEPTIBLE]], n_step = 0 \<rparr>"
      "\<lparr> recover_rate = (\<lambda>_. 0), symptom_rate = (\<lambda>_. 0), infect_rate = (\<lambda>_. 0),
         rand_xs = (\<lambda>_. 0), rand_ys = (\<lambda>_. 0), rand_direction = (\<lambda>_. 3) \<rparr>"]
  by (simp add: wf_sim_def has_shape_def in_grid_def)

text \<open>\<open>step\<close> always returns: it calls \<open>exchange\<close> only with \<open>moving > 0\<close>, where the count is not negative.\<close>

lemma step_returns: "\<exists>s'. step s rnd = Inr s'"
proof -
  let ?s3 = "step_infect (step_symptom (step_recover s rnd) rnd) rnd"
  show ?thesis
  proof (cases "0 < moving ?s3")
    case True
    have "\<not> exchange_count ?s3 < 0"
      using True exchange_count_neg [of ?s3] by auto
    then show ?thesis using True by (simp add: step_def Let_def exchange_def)
  next
    case False
    then show ?thesis by (simp add: step_def Let_def)
  qed
qed

subsection \<open>No regression\<close>

lemma swap_cells_other:
  assumes "r \<noteq> p" "r \<noteq> q"
  shows "cell (swap_cells g p q) r = cell g r"
proof -
  let ?g1 = "set_cell g p (cell g q)"
  have "cell (set_cell ?g1 q (cell g p)) r = cell ?g1 r"
    using set_cell_cases [of ?g1 q "cell g p" r] assms(2) by auto
  moreover have "cell ?g1 r = cell g r"
    using set_cell_cases [of g p "cell g q" r] assms(1) by auto
  ultimately show ?thesis by (simp add: swap_cells_def Let_def)
qed

lemma exchange_attempt_other:
  "r \<notin> set (attempt_cells sz a) \<Longrightarrow> cell (exchange_attempt sz g a) r = cell g r"
proof (cases a)
  case (fields x y d)
  assume "r \<notin> set (attempt_cells sz a)"
  then show ?thesis
    unfolding fields by (cases "move_target sz (x, y, d)") (simp_all add: swap_cells_other)
qed

lemma exchange_loop_other:
  "r \<notin> set (concat (map (attempt_cells sz) as)) \<Longrightarrow>
   cell (foldl (exchange_attempt sz) g as) r = cell g r"
proof (induction as arbitrary: g)
  case Nil
  then show ?case by simp
next
  case (Cons a as)
  from Cons.prems have "r \<notin> set (attempt_cells sz a)"
    and rest: "r \<notin> set (concat (map (attempt_cells sz) as))" by simp_all
  then have "cell (exchange_attempt sz g a) r = cell g r"
    by (simp add: exchange_attempt_other)
  with Cons.IH [OF rest, of "exchange_attempt sz g a"] show ?case by simp
qed

lemma phases_size_xy:
  "size_xy (step_recover s rnd) = size_xy s"
  "size_xy (step_symptom s rnd) = size_xy s"
  "size_xy (step_infect s rnd) = size_xy s"
  by (simp_all add: step_recover_def step_symptom_def step_infect_def Let_def)

lemma phases_mono:
  "cell (map_arr s) q \<le> cell (map_arr (step_infect (step_symptom (step_recover s rnd) rnd) rnd)) q"
  using step_recover_mono [of s q rnd] step_symptom_mono [of "step_recover s rnd" q rnd]
    step_infect_mono [of "step_symptom (step_recover s rnd) rnd" q rnd] by linarith

text \<open>
  C5, as the code has it. The three transition phases only ever move a cell forward
  (3 to 4, 2 to 3, 1 to 2), for all parameter values and draws. \<open>step\<close> always returns,
  and whatever \<open>moving\<close> is, every position that no exchange attempt of the call has as
  its source or its target holds a value no smaller than before the call. When the
  movement phase is skipped or every attempt is discarded, that is every cell of the grid.
\<close>

theorem step_no_regression:
  "(\<forall>q. cell (map_arr s) q
          \<le> cell (map_arr (step_infect (step_symptom (step_recover s rnd) rnd) rnd)) q) \<and>
   (\<exists>s'. step s rnd = Inr s' \<and>
         (\<forall>q. inside (map_arr s) q \<and> q \<notin> set (exchanged_cells s rnd) \<longrightarrow>
              cell (map_arr s) q \<le> cell (map_arr s') q))"
proof (rule conjI)
  let ?s3 = "step_infect (step_symptom (step_recover s rnd) rnd) rnd"
  show "\<forall>q. cell (map_arr s) q \<le> cell (map_arr ?s3) q"
    by (intro allI phases_mono)
  have mv: "moving ?s3 = moving s" by (simp add: phases_moving)
  have sz: "size_xy ?s3 = size_xy s" by (simp add: phases_size_xy)
  have cnt: "exchange_count ?s3 = exchange_count s" by (simp add: exchange_count_def mv sz)
  show "\<exists>s'. step s rnd = Inr s' \<and>
         (\<forall>q. inside (map_arr s) q \<and> q \<notin> set (exchanged_cells s rnd) \<longrightarrow>
              cell (map_arr s) q \<le> cell (map_arr s') q)"
  proof (cases "0 < moving s")
    case False
    then have "moving s \<le> 0" by simp
    then have run: "step s rnd = Inr (?s3\<lparr> n_step := n_step s + 1 \<rparr>)"
      by (rule step_without_moving)
    show ?thesis
    proof (intro exI conjI allI impI)
      show "step s rnd = Inr (?s3\<lparr> n_step := n_step s + 1 \<rparr>)" by (rule run)
      fix q
      show "cell (map_arr s) q \<le> cell (map_arr (?s3\<lparr> n_step := n_step s + 1 \<rparr>)) q"
        using phases_mono [of s q rnd] by simp
    qed
  next
    case True
    let ?as = "attempts rnd (nat (exchange_count s))"
    let ?g = "foldl (exchange_attempt (size_xy s)) (map_arr ?s3) ?as"
    let ?s' = "?s3\<lparr> map_arr := ?g, n_step := n_step s + 1 \<rparr>"
    have "\<not> exchange_count s < 0"
      using True exchange_count_neg [of s] by auto
    then have run: "step s rnd = Inr ?s'"
      using True by (simp add: step_def Let_def exchange_def mv sz cnt phases_n_step)
    show ?thesis
    proof (intro exI conjI allI impI)
      show "step s rnd = Inr ?s'" by (rule run)
      fix q assume "inside (map_arr s) q \<and> q \<notin> set (exchanged_cells s rnd)"
      then have "q \<notin> set (concat (map (attempt_cells (size_xy s)) ?as))"
        using True by (simp add: exchanged_cells_def)
      then have "cell ?g q = cell (map_arr ?s3) q"
        by (rule exchange_loop_other)
      then show "cell (map_arr s) q \<le> cell (map_arr ?s') q"
        using phases_mono [of s q rnd] by simp
    qed
  qed
qed

theorem step_no_regression_witness:
  "\<exists>s'. step \<lparr> size_xy = (1, 3), infect = 1/2, symptom = 1/2, recover = 1, moving = 1/3,
                 map_arr = [[RECOVER, SUSCEPTIBLE, INFECTED]], n_step = 0 \<rparr>
               \<lparr> recover_rate = (\<lambda>_. 1/2), symptom_rate = (\<lambda>_. 1/2), infect_rate = (\<lambda>_. 3/4),
                 rand_xs = (\<lambda>_. 0), rand_ys = (\<lambda>_. 0), rand_direction = (\<lambda>_. 3) \<rparr> = Inr s' \<and>
        INFECTED \<le> cell (map_arr s') (0, 2)"
proof -
  let ?S = "\<lparr> size_xy = (1, 3), infect = 1/2, symptom = 1/2, recover = 1, moving = 1/3,
              map_arr = [[RECOVER, SUSCEPTIBLE, INFECTED]], n_step = 0 \<rparr>"
  let ?R = "\<lparr> recover_rate = (\<lambda>_. 1/2), symptom_rate = (\<lambda>_. 1/2), infect_rate = (\<lambda>_. 3/4),
              rand_xs = (\<lambda>_. 0), rand_ys = (\<lambda>_. 0), rand_direction = (\<lambda>_. 3) \<rparr>"
  have touched: "exchanged_cells ?S ?R = [(0, 0), (0, 1)]"
    by code_simp
  from step_no_regression [of ?S ?R, THEN conjunct2]
  obtain s' where run: "step ?S ?R = Inr s'"
    and keep: "\<forall>q. inside (map_arr ?S) q \<and> q \<notin> set (exchanged_cells ?S ?R) \<longrightarrow>
                 cell (map_arr ?S) q \<le> cell (map_arr s') q"
    by (elim exE conjE)
  have untouched: "(0, 2) \<notin> set (exchanged_cells ?S ?R)"
    by (simp only: touched) simp
  have "INFECTED \<le> cell (map_arr s') (0, 2)"
    using keep [rule_format, of "(0, 2)"] untouched by (simp add: inside_def)
  then show ?thesis using run by (intro exI [of _ s'] conjI)
qed

text \<open>
  With \<open>moving > 0\<close> the exchange swaps the values of two positions: on the grid
  \<open>[[RECOVER, SUSCEPTIBLE]]\<close> with \<open>moving = 1/2\<close> the single attempt \<open>(0, 0)\<close>, direction 3, leaves
  the two values exchanged, so position \<open>(0, 0)\<close> goes from Recovered to Susceptible within one step.
\<close>

theorem step_regression_counterexample:
  "step \<lparr> size_xy = (1, 2), infect = 0, symptom = 0, recover = 0, moving = 1/2,
            map_arr = [[RECOVER, SUSCEPTIBLE]], n_step = 0 \<rparr>
          \<lparr> recover_rate = (\<lambda>_. 1/2), symptom_rate = (\<lambda>_. 1/2), infect_rate = (\<lambda>_. 1/2),
            rand_xs = (\<lambda>_. 0), rand_ys = (\<lambda>_. 0), rand_direction = (\<lambda>_. 3) \<rparr>
        = Inr \<lparr> size_xy = (1, 2), infect = 0, symptom = 0, recover = 0, moving = 1/2,
            map_arr = [[SUSCEPTIBLE, RECOVER]], n_step = 1 \<rparr>"
  by code_simp

subsection \<open>Construction and seeding\<close>

text \<open>
  C3, as the code has it. \<open>__init__\<close> checks none of its arguments: with non-negative
  dimensions (zero included) and any four probability values it succeeds, stores the
  values as given, fills every cell with Susceptible and sets the step counter to 0. Only
  a negative dimension fails, with numpy's \<open>ValueError\<close>.
\<close>

theorem init_unchecked:
  "(nx < 0 \<or> ny < 0 \<longrightarrow> init (nx, ny) i sy r m = Inl ValueError) \<and>
   (0 \<le> nx \<and> 0 \<le> ny \<longrightarrow>
      (\<exists>s. init (nx, ny) i sy r m = Inr s \<and>
           size_xy s = (nat nx, nat ny) \<and>
           infect s = i \<and> symptom s = sy \<and> recover s = r \<and> moving s = m \<and>
           wf_sim s \<and>
           (\<forall>q. in_grid (size_xy s) q \<longrightarrow> cell (map_arr s) q = SUSCEPTIBLE) \<and>
           n_step s = 0))"
  by (auto simp: init_def wf_sim_def has_shape_def in_grid_def list_all_iff)

theorem init_unchecked_witness:
  "(\<exists>s. init (2, 0) (-1) 5 (1/2) 0 = Inr s \<and> infect s = -1 \<and> symptom s = 5 \<and> n_step s = 0) \<and>
   init (-1, 2) (1/2) (1/2) (1/2) (1/2) = Inl ValueError"
  using init_unchecked [of 2 0 "-1" 5 "1/2" 0] init_unchecked [of "-1" 2 "1/2" "1/2" "1/2" "1/2"]
  by auto

text \<open>
  Construction with \<open>infect = 2\<close>, outside \<open>[0, 1]\<close>, succeeds.
\<close>

theorem init_counterexample:
  "init (1, 1) 2 0 0 0 =
     Inr \<lparr> size_xy = (1, 1), infect = 2, symptom = 0, recover = 0, moving = 0,
           map_arr = [[SUSCEPTIBLE]], n_step = 0 \<rparr>"
  by (simp add: init_def)

text \<open>
  C6, as the code has it. \<open>initialize\<close> never fails and does not look at the state
  value: for any real \<open>state\<close> it keeps the shape of the grid, writes \<open>state\<close> into exactly
  the cells whose draw is below \<open>ratio\<close> and leaves the other cells as they were.
\<close>

theorem initialize_unchecked:
  "size_xy (initialize s ratio state rand) = size_xy s \<and>
   n_step (initialize s ratio state rand) = n_step s \<and>
   map length (map_arr (initialize s ratio state rand)) = map length (map_arr s) \<and>
   (\<forall>x y. inside (map_arr s) (x, y) \<longrightarrow>
      cell (map_arr (initialize s ratio state rand)) (x, y) =
        (if rand x y < ratio then state else cell (map_arr s) (x, y)))"
  by (auto simp: initialize_def inside_def nth_enumerate_eq intro!: nth_equalityI)

theorem initialize_unchecked_witness:
  "cell (map_arr (initialize \<lparr> size_xy = (1, 2), infect = 0, symptom = 0, recover = 0, moving = 0,
                               map_arr = [[SUSCEPTIBLE, INFECTED]], n_step = 0 \<rparr>
                             (1/2) (-3) (\<lambda>x y. real y))) (0, 0) = -3"
  using initialize_unchecked [of
      "\<lparr> size_xy = (1, 2), infect = 0, symptom = 0, recover = 0, moving = 0,
         map_arr = [[SUSCEPTIBLE, INFECTED]], n_step = 0 \<rparr>" "1/2" "-3" "\<lambda>x y. real y"]
  by (simp add: inside_def)

text \<open>
  Seeding with the value 7, which is none of the four states, is not rejected: with
  \<open>ratio = 1\<close> the cell of a 1x1 grid becomes 7.
\<close>

theorem initialize_counterexample:
  "initialize \<lparr> size_xy = (1, 1), infect = 0, symptom = 0, recover = 0, moving = 0,
                map_arr = [[SUSCEPTIBLE]], n_step = 0 \<rparr> 1 7 (\<lambda>x y. 0)
   = \<lparr> size_xy = (1, 1), infect = 0, symptom = 0, recover = 0, moving = 0,
       map_arr = [[7]], n_step = 0 \<rparr>"
  by (simp add: initialize_def enumerate_eq_zip)

subsection \<open>Infection probability 0\<close>

text \<open>With \<open>infect = 0\<close> and every infection draw above 0 the infection phase changes nothing.\<close>

lemma step_infect_zero_positive_draws:
  assumes "infect s = 0" "\<forall>i. 0 < infect_rate rnd i"
  shows "step_infect s rnd = s"
proof -
  have "foldl (infect_cell 0 (size_xy s)) (map_arr s)
          (with_draws (where_eq (map_arr s) SUSCEPTIBLE) (infect_rate rnd)) = map_arr s"
  proof (rule foldl_unchanged)
    fix a assume a: "a \<in> set (with_draws (where_eq (map_arr s) SUSCEPTIBLE) (infect_rate rnd))"
    obtain q r where qr: "a = (q, r)" by (cases a)
    with a with_draws_snd obtain i where "r = infect_rate rnd i" by blast
    with assms(2) have "0 < r" by simp
    then show "infect_cell 0 (size_xy s) (map_arr s) a = map_arr s"
      by (simp add: qr)
  qed
  then show ?thesis by (simp add: step_infect_def infect_loop_def assms(1))
qed

text \<open>
  C4 at a draw of exactly 0. With \<open>infect = 0\<close> the test \<open>r \<le> self.infect\<close> still passes
  for \<open>r = 0\<close>, a value \<open>np.random.rand\<close> can return, and the Susceptible cell next to
  an Infected one becomes Latent.
\<close>

theorem step_infect_zero_draw:
  "step \<lparr> size_xy = (1, 2), infect = 0, symptom = 1/2, recover = 1/2, moving = 0,
           map_arr = [[INFECTED, SUSCEPTIBLE]], n_step = 0 \<rparr>
        \<lparr> recover_rate = (\<lambda>_. 9/10), symptom_rate = (\<lambda>_. 9/10), infect_rate = (\<lambda>_. 0),
          rand_xs = (\<lambda>_. 0), rand_ys = (\<lambda>_. 0), rand_direction = (\<lambda>_. 0) \<rparr>
   = Inr \<lparr> size_xy = (1, 2), infect = 0, symptom = 1/2, recover = 1/2, moving = 0,
           map_arr = [[INFECTED, LATENT]], n_step = 1 \<rparr>"
  by code_simp

subsection \<open>Display mapping\<close>

lemma mask_assign_length:
  "length img = length data \<Longrightarrow> length (mask_assign img data v c) = length data"
  by (simp add: mask_assign_def)

lemma mask_assign_row_length:
  "length img = length data \<Longrightarrow> x < length data \<Longrightarrow> length (img ! x) = length (data ! x) \<Longrightarrow>
   length (mask_assign img data v c ! x) = length (data ! x)"
  by (simp add: mask_assign_def)

lemma mask_assign_nth:
  "length img = length data \<Longrightarrow> x < length data \<Longrightarrow> length (img ! x) = length (data ! x) \<Longrightarrow>
   y < length (data ! x) \<Longrightarrow>
   mask_assign img data v c ! x ! y = (if data ! x ! y = v then c else img ! x ! y)"
  by (simp add: mask_assign_def)

text \<open>
  C10. \<open>convert_to_rgb\<close> is a total function of the grid: the image has the grid's
  number of rows and each row the grid row's length, a cell holding one of the four states
  gets that state's fixed colour, and a cell holding any other value gets \<open>(0, 0, 0)\<close>;
  there is no error branch.
\<close>

theorem convert_to_rgb_total:
  "length (convert_to_rgb data) = length data \<and>
   (\<forall>x < length data. length (convert_to_rgb data ! x) = length (data ! x) \<and>
      (\<forall>y < length (data ! x). convert_to_rgb data ! x ! y =
         (if data ! x ! y = SUSCEPTIBLE then (55, 55, 200)
          else if data ! x ! y = LATENT then (255, 255, 55)
          else if data ! x ! y = INFECTED then (200, 55, 55)
          else if data ! x ! y = RECOVER then (55, 200, 55)
          else (0, 0, 0))))"
  by (simp add: convert_to_rgb_def Let_def mask_assign_length mask_assign_row_length
      mask_assign_nth state_defs)

theorem convert_to_rgb_total_witness:
  "convert_to_rgb [[1, 2], [3, 4], [9, 0]] =
     [[(55, 55, 200), (255, 255, 55)], [(200, 55, 55), (55, 200, 55)], [(0, 0, 0), (0, 0, 0)]]"
  using convert_to_rgb_total [of "[[1, 2], [3, 4], [9, 0]]"]
  by (simp add: convert_to_rgb_def mask_assign_def state_defs)

end
